theory Spec2Isabelle
  imports Complex_Main "HOL-Library.Signed_Division"
begin

section \<open>The arena of \<^verbatim>\<open>my_malloc.h\<close>\<close>

text \<open>
  The three static arrays of the header, each of \<^verbatim>\<open>MAX_MEMORY\<close> elements. The type
  \<open>'d\<close> stands for the C type \<^verbatim>\<open>double\<close>: the allocator never computes with the
  stored values. \<^verbatim>\<open>MAX_MEMORY\<close> is a macro that the build may override (450 when it
  does not), so it is read off the declared length of \<^verbatim>\<open>MEMORY_BUFFER\<close>.
\<close>

record 'd arena =
  MEMORY_BUFFER :: "'d list"
  MEMORY_USED :: "bool list"
  MEMORY_IS_POINTER :: "bool list"

definition MAX_MEMORY :: "'d arena \<Rightarrow> int" where
  "MAX_MEMORY s = int (length (MEMORY_BUFFER s))"

text \<open>
  All three arrays are declared with the same, positive number of elements
  (C has no arrays of length zero).
\<close>

definition arena_ok :: "'d arena \<Rightarrow> bool" where
  "arena_ok s \<longleftrightarrow>
     0 < length (MEMORY_BUFFER s) \<and>
     length (MEMORY_USED s) = length (MEMORY_BUFFER s) \<and>
     length (MEMORY_IS_POINTER s) = length (MEMORY_BUFFER s)"

text \<open>
  C indexes an array with a \<^verbatim>\<open>long\<close> and checks nothing: an index outside the array
  is undefined behaviour. Every array access of the model goes through \<open>load\<close> or
  \<open>store\<close>, which answer \<open>None\<close> there.
\<close>

definition load :: "'a list \<Rightarrow> int \<Rightarrow> 'a option" where
  "load xs a = (if 0 \<le> a \<and> a < int (length xs) then Some (xs ! nat a) else None)"

definition store :: "'a list \<Rightarrow> int \<Rightarrow> 'a \<Rightarrow> 'a list option" where
  "store xs a v = (if 0 \<le> a \<and> a < int (length xs) then Some (xs[nat a := v]) else None)"

text \<open>
  How a call ends: it returns a value, it reaches \<^verbatim>\<open>printf("Out of memory!\n"); exit(1)\<close>
  (the text printed and the arrays at that moment are kept), or it has accessed an
  array outside its bounds.
\<close>

datatype ('a, 'd) outcome =
  Returns 'a "'d arena"
| Exits string "'d arena"
| Undefined

section \<open>\<^verbatim>\<open>my_malloc\<close>\<close>

text \<open>
  The \<^verbatim>\<open>for\<close> loop of lines 118 to 127, entered with \<open>i\<close>. \<open>Free_space\<close>: the loop
  ran to \<open>i = n + 2\<close> and \<^verbatim>\<open>found_free_space\<close> is still true. \<open>Blocked i\<close>: the
  \<^verbatim>\<open>break\<close> was taken at \<open>i\<close>. \<open>None\<close>: a read outside \<^verbatim>\<open>MEMORY_USED\<close>.
\<close>

datatype probe = Free_space | Blocked int

function find_free_space :: "'d arena \<Rightarrow> int \<Rightarrow> int \<Rightarrow> int \<Rightarrow> probe option" where
  "find_free_space s start_address n i =
     (if i < n + 2 then
        (if start_address + i \<ge> MAX_MEMORY s then Some (Blocked i)
         else (case load (MEMORY_USED s) (start_address + i) of
                 None \<Rightarrow> None
               | Some used \<Rightarrow>
                   (if used then Some (Blocked i)
                    else find_free_space s start_address n (i + 1))))
      else Some Free_space)"
  by pat_completeness auto
termination
  by (relation "measure (\<lambda>(s, start_address, n, i). nat (n + 2 - i))") auto

declare find_free_space.simps [simp del]

text \<open>
  The \<^verbatim>\<open>for\<close> loop of lines 131 to 135, entered with \<open>i\<close> (the source starts it at 1).
  \<open>None\<close>: a write outside one of the two arrays.
\<close>

function mark_used :: "'d arena \<Rightarrow> int \<Rightarrow> int \<Rightarrow> int \<Rightarrow> 'd arena option" where
  "mark_used s start_address n i =
     (if i < n + 1 then
        (case store (MEMORY_USED s) (start_address + i) True of
           None \<Rightarrow> None
         | Some used \<Rightarrow>
            (case store (MEMORY_IS_POINTER s) (start_address + i) False of
               None \<Rightarrow> None
             | Some is_pointer \<Rightarrow>
                 mark_used (s\<lparr>MEMORY_USED := used, MEMORY_IS_POINTER := is_pointer\<rparr>)
                   start_address n (i + 1)))
      else Some s)"
  by pat_completeness auto
termination
  by (relation "measure (\<lambda>(s, start_address, n, i). nat (n + 1 - i))") auto

declare mark_used.simps [simp del]

text \<open>
  One pass through the body of the \<^verbatim>\<open>while\<close> loop (lines 110 to 137) at \<open>offset\<close>:
  \<open>Inr offset'\<close> when the pass ends by going back to the loop test with the new value
  of \<^verbatim>\<open>offset\<close>, \<open>Inl\<close> when it ends the call.
\<close>

definition my_malloc_body ::
  "'d arena \<Rightarrow> int \<Rightarrow> int \<Rightarrow> int \<Rightarrow> (int, 'd) outcome + int" where
  "my_malloc_body s search_start_address n offset =
     (case load (MEMORY_USED s) ((search_start_address + offset) smod MAX_MEMORY s) of
        None \<Rightarrow> Inl Undefined
      | Some used \<Rightarrow>
         (if used then Inr (offset + 1)
          else
            (case find_free_space s ((search_start_address + offset) smod MAX_MEMORY s) n 0 of
               None \<Rightarrow> Inl Undefined
             | Some (Blocked i) \<Rightarrow> Inr (offset + (i + 1))
             | Some Free_space \<Rightarrow>
                (case mark_used s ((search_start_address + offset) smod MAX_MEMORY s) n 1 of
                   None \<Rightarrow> Inl Undefined
                 | Some s' \<Rightarrow>
                     Inl (Returns
                       ((search_start_address + offset) smod MAX_MEMORY s + 1) s')))))"

text \<open>
  The \<^verbatim>\<open>while\<close> loop of lines 108 to 138 together with the two statements after it,
  entered with \<open>offset\<close>. Nothing is assumed about the loop coming to an end: the
  result \<open>None\<close> of this function means that it does not.
\<close>

partial_function (option) my_malloc_loop ::
  "'d arena \<Rightarrow> int \<Rightarrow> int \<Rightarrow> int \<Rightarrow> (int, 'd) outcome option" where
  "my_malloc_loop s search_start_address n offset =
     (if offset < MAX_MEMORY s then
        (case my_malloc_body s search_start_address n offset of
           Inl res \<Rightarrow> Some res
         | Inr offset' \<Rightarrow> my_malloc_loop s search_start_address n offset')
      else Some (Exits ''Out of memory!\<newline>'' s))"

declare my_malloc_loop.simps [code]

text \<open>
  \<^verbatim>\<open>my_malloc(n)\<close> in the arena \<open>s\<close>, where \<open>r\<close> is what the call of \<^verbatim>\<open>rand()\<close> on
  line 104 returns (a number from 0 to \<^verbatim>\<open>RAND_MAX\<close>). The C operators \<^verbatim>\<open>/\<close> and
  \<^verbatim>\<open>%\<close> truncate towards zero: \<open>sdiv\<close> and \<open>smod\<close>. The handle returned is the index
  of the slot that the returned pointer points to. The integers of the model are
  unbounded: in the source, with \<^verbatim>\<open>MAX_MEMORY\<close> well below the largest \<^verbatim>\<open>int\<close>, only
  \<^verbatim>\<open>n - 1\<close> can overflow, and only for the smallest \<^verbatim>\<open>long\<close>.
\<close>

definition my_malloc :: "'d arena \<Rightarrow> nat \<Rightarrow> int \<Rightarrow> (int, 'd) outcome option" where
  "my_malloc s r n =
     my_malloc_loop s (int r smod MAX_MEMORY s) ((n - 1) sdiv 8 + 1) 0"

section \<open>\<^verbatim>\<open>init_my_malloc\<close>\<close>

text \<open>
  The loop of lines 93 to 97, entered with \<open>i\<close>. \<open>garbage i\<close> is what the call of
  \<^verbatim>\<open>double_rand()\<close> for slot \<open>i\<close> returns. \<^verbatim>\<open>MEMORY_IS_POINTER\<close> is not written.
\<close>

function init_loop :: "'d arena \<Rightarrow> (int \<Rightarrow> 'd) \<Rightarrow> int \<Rightarrow> (unit, 'd) outcome" where
  "init_loop s garbage i =
     (if i < MAX_MEMORY s then
        (case store (MEMORY_USED s) i False of
           None \<Rightarrow> Undefined
         | Some used \<Rightarrow>
            (case store (MEMORY_BUFFER s) i (garbage i) of
               None \<Rightarrow> Undefined
             | Some buffer \<Rightarrow>
                 init_loop (s\<lparr>MEMORY_USED := used, MEMORY_BUFFER := buffer\<rparr>) garbage (i + 1)))
      else Returns () s)"
  by pat_completeness auto
termination
  by (relation "measure (\<lambda>(s, garbage, i). nat (MAX_MEMORY s - i))")
    (auto simp: MAX_MEMORY_def store_def split: if_splits)

declare init_loop.simps [simp del]

definition init_my_malloc :: "'d arena \<Rightarrow> (int \<Rightarrow> 'd) \<Rightarrow> (unit, 'd) outcome" where
  "init_my_malloc s garbage = init_loop s garbage 0"

section \<open>\<^verbatim>\<open>set_print_as_pointer\<close>\<close>

text \<open>
  The loop of lines 147 and 148, entered with \<open>i\<close>; \<open>offset\<close> is the slot index
  \<^verbatim>\<open>(double*)ptr - MEMORY_BUFFER\<close> of the pointer passed in.
\<close>

function set_print_as_pointer_loop ::
  "'d arena \<Rightarrow> int \<Rightarrow> int \<Rightarrow> int \<Rightarrow> (unit, 'd) outcome" where
  "set_print_as_pointer_loop s offset n i =
     (if i < n then
        (case store (MEMORY_IS_POINTER s) (offset + i) True of
           None \<Rightarrow> Undefined
         | Some is_pointer \<Rightarrow>
             set_print_as_pointer_loop (s\<lparr>MEMORY_IS_POINTER := is_pointer\<rparr>) offset n (i + 1))
      else Returns () s)"
  by pat_completeness auto
termination
  by (relation "measure (\<lambda>(s, offset, n, i). nat (n - i))") auto

declare set_print_as_pointer_loop.simps [simp del]

definition set_print_as_pointer :: "'d arena \<Rightarrow> int \<Rightarrow> int \<Rightarrow> (unit, 'd) outcome" where
  "set_print_as_pointer s ptr n = set_print_as_pointer_loop s ptr n 0"

section \<open>\<^verbatim>\<open>my_free\<close>\<close>

text \<open>
  The loop of lines 154 to 158, entered with \<open>address\<close>. The condition reads
  \<^verbatim>\<open>MEMORY_USED[address]\<close> only when \<^verbatim>\<open>address < MAX_MEMORY\<close>; a negative address is
  read all the same.
\<close>

function my_free_loop :: "'d arena \<Rightarrow> int \<Rightarrow> (unit, 'd) outcome" where
  "my_free_loop s address =
     (if address < MAX_MEMORY s then
        (case load (MEMORY_USED s) address of
           None \<Rightarrow> Undefined
         | Some used \<Rightarrow>
            (if used then
               (case store (MEMORY_USED s) address False of
                  None \<Rightarrow> Undefined
                | Some used' \<Rightarrow> my_free_loop (s\<lparr>MEMORY_USED := used'\<rparr>) (address + 1))
             else Returns () s))
      else Returns () s)"
  by pat_completeness auto
termination
  by (relation "measure (\<lambda>(s, address). nat (MAX_MEMORY s - address))")
    (auto simp: MAX_MEMORY_def)

declare my_free_loop.simps [simp del]

definition my_free :: "'d arena \<Rightarrow> int \<Rightarrow> (unit, 'd) outcome" where
  "my_free s ptr = my_free_loop s ptr"

section \<open>The printing routines\<close>

text \<open>
  The conversions \<^verbatim>\<open>%6d\<close> and \<^verbatim>\<open>%5ld\<close> of \<^verbatim>\<open>printf\<close>: the decimal digits of the
  number, a minus sign before them when it is negative, and spaces on the left up to
  the field width.
\<close>

fun decimal :: "nat \<Rightarrow> string" where
  "decimal k =
     (if k < 10 then [char_of (48 + k)]
      else decimal (k div 10) @ [char_of (48 + k mod 10)])"

declare decimal.simps [simp del]

definition printf_d :: "nat \<Rightarrow> int \<Rightarrow> string" where
  "printf_d width k =
     (if k < 0
      then replicate (width - Suc (length (decimal (nat (- k))))) CHR '' ''
             @ CHR ''-'' # decimal (nat (- k))
      else replicate (width - length (decimal (nat k))) CHR '' '' @ decimal (nat k))"

text \<open>
  The loop of \<^verbatim>\<open>print_memory_used\<close> (lines 165 to 178), entered with \<open>i\<close>, and the
  \<^verbatim>\<open>printf\<close> after it; \<open>out\<close> is the text printed so far.
  \<^verbatim>\<open>MEMORY_IS_POINTER[i]\<close> is read for a used slot only.
\<close>

function print_memory_used_loop :: "'d arena \<Rightarrow> int \<Rightarrow> string \<Rightarrow> (string, 'd) outcome" where
  "print_memory_used_loop s i out =
     (if i < MAX_MEMORY s then
        (case load (MEMORY_USED s) i of
           None \<Rightarrow> Undefined
         | Some used \<Rightarrow>
            (if used then
               (case load (MEMORY_IS_POINTER s) i of
                  None \<Rightarrow> Undefined
                | Some is_pointer \<Rightarrow>
                    print_memory_used_loop s (i + 1)
                      (out @ (if i smod 25 = 0 then ''\<newline>'' @ printf_d 6 i @ '': '' else [])
                           @ (if is_pointer then ''p'' else ''x'')))
             else
               print_memory_used_loop s (i + 1)
                 (out @ (if i smod 25 = 0 then ''\<newline>'' @ printf_d 6 i @ '': '' else [])
                      @ ''.'')))
      else Returns (out @ ''\<newline>'') s)"
  by pat_completeness auto
termination
  by (relation "measure (\<lambda>(s, i, out). nat (MAX_MEMORY s - i))") auto

declare print_memory_used_loop.simps [simp del]

text \<open>
  \<^verbatim>\<open>print_memory_used\<close>: the value returned is the text written to the standard output.
\<close>

definition print_memory_used :: "'d arena \<Rightarrow> (string, 'd) outcome" where
  "print_memory_used s = print_memory_used_loop s 0 ''Current memory usage:''"

text \<open>
  The loop of \<^verbatim>\<open>print_memory_value\<close> (lines 186 to 203), entered with \<open>i\<close>, and the
  \<^verbatim>\<open>printf\<close> after it. Two things
  are left to the C library and the machine and are parameters here: \<open>fmt_g\<close> is the
  conversion \<^verbatim>\<open>%5.2g\<close> of a \<^verbatim>\<open>double\<close>, and \<open>pointee\<close> reads the bits of a slot as a
  pointer and gives \<^verbatim>\<open>*ppMemD - &MEMORY_BUFFER[0]\<close>.
\<close>

function print_memory_value_loop ::
  "('d \<Rightarrow> string) \<Rightarrow> ('d \<Rightarrow> int) \<Rightarrow> 'd arena \<Rightarrow> int \<Rightarrow> string \<Rightarrow> (string, 'd) outcome" where
  "print_memory_value_loop fmt_g pointee s i out =
     (if i < MAX_MEMORY s then
        (case load (MEMORY_USED s) i of
           None \<Rightarrow> Undefined
         | Some used \<Rightarrow>
            (if used then
               (case load (MEMORY_IS_POINTER s) i of
                  None \<Rightarrow> Undefined
                | Some is_pointer \<Rightarrow>
                   (case load (MEMORY_BUFFER s) i of
                      None \<Rightarrow> Undefined
                    | Some v \<Rightarrow>
                        print_memory_value_loop fmt_g pointee s (i + 1)
                          (out @ (if i smod 25 = 0 then ''\<newline>'' @ printf_d 6 i @ '':'' else [])
                               @ (if is_pointer then '' '' @ printf_d 5 (pointee v)
                                  else '' '' @ fmt_g v))))
             else
               print_memory_value_loop fmt_g pointee s (i + 1)
                 (out @ (if i smod 25 = 0 then ''\<newline>'' @ printf_d 6 i @ '':'' else [])
                      @ ''      '')))
      else Returns (out @ ''\<newline>'') s)"
  by pat_completeness auto
termination
  by (relation "measure (\<lambda>(fmt_g, pointee, s, i, out). nat (MAX_MEMORY s - i))") auto

declare print_memory_value_loop.simps [simp del]

definition print_memory_value ::
  "('d \<Rightarrow> string) \<Rightarrow> ('d \<Rightarrow> int) \<Rightarrow> 'd arena \<Rightarrow> (string, 'd) outcome" where
  "print_memory_value fmt_g pointee s =
     print_memory_value_loop fmt_g pointee s 0 ''Current memory values:''"

section \<open>Arenas to run the code on\<close>

text \<open>
  The arrays as the program finds them when it starts, for a build with
  \<^verbatim>\<open>MAX_MEMORY\<close> set to \<open>C\<close>: objects with static storage start out as zero.
\<close>

definition program_start :: "nat \<Rightarrow> int arena" where
  "program_start C =
     \<lparr>MEMORY_BUFFER = replicate C 0, MEMORY_USED = replicate C False,
      MEMORY_IS_POINTER = replicate C False\<rparr>"


section \<open>Sequences of calls\<close>

text \<open>
  A program is a sequence of calls of the four operations. Beside the arena, a run
  keeps the table \<open>live\<close> of the caller's handles: every handle that \<^verbatim>\<open>my_malloc\<close> has
  returned and that has not been passed to \<^verbatim>\<open>my_free\<close> (or wiped by \<^verbatim>\<open>init_my_malloc\<close>)
  since, with the number of slots of its allocation. The table is bookkeeping only; the
  code has no such table. A call is carried out when the caller keeps to the rules
  that the header leaves to its callers: \<^verbatim>\<open>my_malloc\<close> is asked for more than 0 bytes,
  \<^verbatim>\<open>set_print_as_pointer\<close> and \<^verbatim>\<open>my_free\<close> are given a live handle, and the count of
  \<^verbatim>\<open>set_print_as_pointer\<close> is at most the number of slots of that handle. The run
  stops (\<open>None\<close>) at a call that breaks these rules, that ends the program or that
  accesses an array out of bounds.
\<close>

datatype 'd call =
  Init "int \<Rightarrow> 'd"
| Allocate nat int
| Tag int int
| Release int

fun step ::
  "'d arena \<times> (int \<times> int) list \<Rightarrow> 'd call \<Rightarrow> ('d arena \<times> (int \<times> int) list) option" where
  "step (s, live) (Init garbage) =
     (case init_my_malloc s garbage of
        Returns u s' \<Rightarrow> Some (s', [])
      | _ \<Rightarrow> None)"
| "step (s, live) (Allocate r bytes) =
     (if 0 < bytes then
        (case my_malloc s r bytes of
           Some (Returns h s') \<Rightarrow> Some (s', (h, (bytes - 1) sdiv 8 + 1) # live)
         | _ \<Rightarrow> None)
      else None)"
| "step (s, live) (Tag h count) =
     (case map_of live h of
        None \<Rightarrow> None
      | Some n \<Rightarrow>
         (if count \<le> n then
            (case set_print_as_pointer s h count of
               Returns u s' \<Rightarrow> Some (s', live)
             | _ \<Rightarrow> None)
          else None))"
| "step (s, live) (Release h) =
     (case map_of live h of
        None \<Rightarrow> None
      | Some n \<Rightarrow>
         (case my_free s h of
            Returns u s' \<Rightarrow> Some (s', filter (\<lambda>(h', n'). h' \<noteq> h) live)
          | _ \<Rightarrow> None))"

fun run ::
  "'d arena \<times> (int \<times> int) list \<Rightarrow> 'd call list \<Rightarrow> ('d arena \<times> (int \<times> int) list) option" where
  "run st [] = Some st"
| "run st (c # cs) = (case step st c of None \<Rightarrow> None | Some st' \<Rightarrow> run st' cs)"


section \<open>Array accesses and the two inner loops\<close>

lemma MAX_MEMORY_update [simp]:
  "MAX_MEMORY (s\<lparr>MEMORY_USED := u\<rparr>) = MAX_MEMORY s"
  "MAX_MEMORY (s\<lparr>MEMORY_IS_POINTER := p\<rparr>) = MAX_MEMORY s"
  by (simp_all add: MAX_MEMORY_def)

lemma smod_nonneg: "0 \<le> a \<Longrightarrow> 0 < b \<Longrightarrow> (a::int) smod b = a mod b"
  by (simp add: signed_modulo_int_def sgn_if)

lemma load_in_bounds:
  "0 \<le> a \<Longrightarrow> a < int (length xs) \<Longrightarrow> load xs a = Some (xs ! nat a)"
  by (simp add: load_def)

lemma find_free_space_done:
  "\<not> i < n + 2 \<Longrightarrow> find_free_space s a n i = Some Free_space"
  by (simp add: find_free_space.simps)

lemma find_free_space_bound:
  "i < n + 2 \<Longrightarrow> MAX_MEMORY s \<le> a + i \<Longrightarrow> find_free_space s a n i = Some (Blocked i)"
  by (simp add: find_free_space.simps)

lemma find_free_space_step:
  assumes "i < n + 2" "a + i < MAX_MEMORY s" "0 \<le> a + i"
    and "length (MEMORY_USED s) = length (MEMORY_BUFFER s)"
  shows "find_free_space s a n i =
    (if MEMORY_USED s ! nat (a + i) then Some (Blocked i) else find_free_space s a n (i + 1))"
proof -
  have "load (MEMORY_USED s) (a + i) = Some (MEMORY_USED s ! nat (a + i))"
    using assms by (simp add: load_in_bounds MAX_MEMORY_def)
  with assms(1,2) show ?thesis
    by (subst find_free_space.simps) simp
qed

lemma find_free_space_unfold:
  "i < n + 2 \<Longrightarrow> a + i < MAX_MEMORY s \<Longrightarrow> find_free_space s a n i =
    (case load (MEMORY_USED s) (a + i) of
       None \<Rightarrow> None
     | Some used \<Rightarrow> (if used then Some (Blocked i) else find_free_space s a n (i + 1)))"
  by (subst find_free_space.simps) simp

lemma find_free_space_Blocked:
  "find_free_space s a n i = Some (Blocked j) \<Longrightarrow> i \<le> j \<and> j < n + 2"
proof (induction "nat (n + 2 - i)" arbitrary: i rule: less_induct)
  case less
  show ?case
  proof (cases "i < n + 2")
    case False
    with less.prems show ?thesis by (simp add: find_free_space_done)
  next
    case lt: True
    show ?thesis
    proof (cases "a + i < MAX_MEMORY s")
      case False
      with lt less.prems show ?thesis by (simp add: find_free_space_bound)
    next
      case True
      show ?thesis
      proof (cases "load (MEMORY_USED s) (a + i)")
        case None
        with less.prems lt True show ?thesis by (simp add: find_free_space_unfold)
      next
        case (Some u)
        show ?thesis
        proof (cases u)
          case True
          with Some less.prems lt \<open>a + i < MAX_MEMORY s\<close> show ?thesis
            by (simp add: find_free_space_unfold)
        next
          case False
          with Some less.prems lt \<open>a + i < MAX_MEMORY s\<close>
          have "find_free_space s a n (i + 1) = Some (Blocked j)"
            by (simp add: find_free_space_unfold)
          from less.hyps[OF _ this] lt show ?thesis by simp
        qed
      qed
    qed
  qed
qed

lemma find_free_space_defined:
  assumes "length (MEMORY_USED s) = length (MEMORY_BUFFER s)" "0 \<le> a + i"
  shows "find_free_space s a n i \<noteq> None"
  using assms(2)
proof (induction "nat (n + 2 - i)" arbitrary: i rule: less_induct)
  case less
  show ?case
  proof (cases "i < n + 2")
    case False
    then show ?thesis by (simp add: find_free_space_done)
  next
    case lt: True
    show ?thesis
    proof (cases "a + i < MAX_MEMORY s")
      case False
      with lt show ?thesis by (simp add: find_free_space_bound)
    next
      case True
      have "find_free_space s a n (i + 1) \<noteq> None"
        using less.hyps[of "i + 1"] less.prems lt by simp
      then show ?thesis
        using find_free_space_step[OF lt True less.prems assms(1)] by simp
    qed
  qed
qed

lemma find_free_space_Free:
  assumes "length (MEMORY_USED s) = length (MEMORY_BUFFER s)" "0 \<le> a + i"
  shows "find_free_space s a n i = Some Free_space \<longleftrightarrow>
    (\<forall>j. i \<le> j \<and> j < n + 2 \<longrightarrow> a + j < MAX_MEMORY s \<and> \<not> MEMORY_USED s ! nat (a + j))"
  using assms(2)
proof (induction "nat (n + 2 - i)" arbitrary: i rule: less_induct)
  case less
  show ?case
  proof (cases "i < n + 2")
    case False
    then have "find_free_space s a n i = Some Free_space"
      by (rule find_free_space_done)
    moreover from False have "\<And>j. \<not> (i \<le> j \<and> j < n + 2)" by arith
    ultimately show ?thesis by blast
  next
    case lt: True
    show ?thesis
    proof (cases "a + i < MAX_MEMORY s")
      case False
      with lt show ?thesis by (auto simp add: find_free_space_bound)
    next
      case True
      note step = find_free_space_step[OF lt True less.prems assms(1)]
      show ?thesis
      proof (cases "MEMORY_USED s ! nat (a + i)")
        case u: True
        with lt step show ?thesis by auto
      next
        case u: False
        have IH: "find_free_space s a n (i + 1) = Some Free_space \<longleftrightarrow>
          (\<forall>j. i + 1 \<le> j \<and> j < n + 2 \<longrightarrow> a + j < MAX_MEMORY s \<and> \<not> MEMORY_USED s ! nat (a + j))"
          using less.hyps[of "i + 1"] less.prems lt by simp
        have "(\<forall>j. i \<le> j \<and> j < n + 2 \<longrightarrow> a + j < MAX_MEMORY s \<and> \<not> MEMORY_USED s ! nat (a + j))
          \<longleftrightarrow> (\<forall>j. i + 1 \<le> j \<and> j < n + 2 \<longrightarrow> a + j < MAX_MEMORY s \<and> \<not> MEMORY_USED s ! nat (a + j))"
          (is "?L \<longleftrightarrow> ?R")
        proof
          assume ?L then show ?R by simp
        next
          assume R: ?R
          show ?L
          proof (intro allI impI)
            fix j assume j: "i \<le> j \<and> j < n + 2"
            show "a + j < MAX_MEMORY s \<and> \<not> MEMORY_USED s ! nat (a + j)"
            proof (cases "j = i")
              case True
              with \<open>a + i < MAX_MEMORY s\<close> u show ?thesis by simp
            next
              case False
              with j R show ?thesis by simp
            qed
          qed
        qed
        with IH step u show ?thesis by simp
      qed
    qed
  qed
qed

lemma store_in_bounds:
  "0 \<le> a \<Longrightarrow> a < int (length xs) \<Longrightarrow> store xs a v = Some (xs[nat a := v])"
  by (simp add: store_def)

lemma mark_used_done: "\<not> i < n + 1 \<Longrightarrow> mark_used s a n i = Some s"
  by (simp add: mark_used.simps)

lemma mark_used_step:
  assumes "i < n + 1" "0 \<le> a + i" "a + i < MAX_MEMORY s"
    and "length (MEMORY_USED s) = length (MEMORY_BUFFER s)"
    and "length (MEMORY_IS_POINTER s) = length (MEMORY_BUFFER s)"
  shows "mark_used s a n i =
    mark_used (s\<lparr>MEMORY_USED := (MEMORY_USED s)[nat (a + i) := True],
                  MEMORY_IS_POINTER := (MEMORY_IS_POINTER s)[nat (a + i) := False]\<rparr>) a n (i + 1)"
proof -
  have "store (MEMORY_USED s) (a + i) True = Some ((MEMORY_USED s)[nat (a + i) := True])"
    and "store (MEMORY_IS_POINTER s) (a + i) False = Some ((MEMORY_IS_POINTER s)[nat (a + i) := False])"
    using assms by (simp_all add: store_in_bounds MAX_MEMORY_def)
  with assms(1) show ?thesis
    by (subst mark_used.simps) simp
qed

lemma mark_used_result:
  assumes "length (MEMORY_USED s) = length (MEMORY_BUFFER s)"
    and "length (MEMORY_IS_POINTER s) = length (MEMORY_BUFFER s)"
    and "0 \<le> a + i" and "i < n + 1 \<longrightarrow> a + n < MAX_MEMORY s"
  shows "\<exists>s'. mark_used s a n i = Some s' \<and>
    MEMORY_BUFFER s' = MEMORY_BUFFER s \<and>
    length (MEMORY_USED s') = length (MEMORY_USED s) \<and>
    length (MEMORY_IS_POINTER s') = length (MEMORY_IS_POINTER s) \<and>
    (\<forall>k. MEMORY_USED s' ! k = (if a + i \<le> int k \<and> int k \<le> a + n then True else MEMORY_USED s ! k)) \<and>
    (\<forall>k. MEMORY_IS_POINTER s' ! k =
       (if a + i \<le> int k \<and> int k \<le> a + n then False else MEMORY_IS_POINTER s ! k))"
  using assms
proof (induction "nat (n + 1 - i)" arbitrary: s i rule: less_induct)
  case less
  show ?case
  proof (cases "i < n + 1")
    case False
    then show ?thesis by (auto simp: mark_used_done)
  next
    case True
    let ?t = "s\<lparr>MEMORY_USED := (MEMORY_USED s)[nat (a + i) := True],
                  MEMORY_IS_POINTER := (MEMORY_IS_POINTER s)[nat (a + i) := False]\<rparr>"
    from True less.prems have inb: "a + i < MAX_MEMORY s" by simp
    have step: "mark_used s a n i = mark_used ?t a n (i + 1)"
      using mark_used_step[OF True less.prems(3) inb less.prems(1,2)] .
    have "\<exists>s'. mark_used ?t a n (i + 1) = Some s' \<and>
      MEMORY_BUFFER s' = MEMORY_BUFFER ?t \<and>
      length (MEMORY_USED s') = length (MEMORY_USED ?t) \<and>
      length (MEMORY_IS_POINTER s') = length (MEMORY_IS_POINTER ?t) \<and>
      (\<forall>k. MEMORY_USED s' ! k =
         (if a + (i + 1) \<le> int k \<and> int k \<le> a + n then True else MEMORY_USED ?t ! k)) \<and>
      (\<forall>k. MEMORY_IS_POINTER s' ! k =
         (if a + (i + 1) \<le> int k \<and> int k \<le> a + n then False else MEMORY_IS_POINTER ?t ! k))"
      using True less.prems by (intro less.hyps) (simp_all add: MAX_MEMORY_def)
    then obtain s' where s': "mark_used ?t a n (i + 1) = Some s'"
      "MEMORY_BUFFER s' = MEMORY_BUFFER s"
      "length (MEMORY_USED s') = length (MEMORY_USED s)"
      "length (MEMORY_IS_POINTER s') = length (MEMORY_IS_POINTER s)"
      and u: "\<And>k. MEMORY_USED s' ! k =
         (if a + (i + 1) \<le> int k \<and> int k \<le> a + n then True
          else (MEMORY_USED s)[nat (a + i) := True] ! k)"
      and p: "\<And>k. MEMORY_IS_POINTER s' ! k =
         (if a + (i + 1) \<le> int k \<and> int k \<le> a + n then False
          else (MEMORY_IS_POINTER s)[nat (a + i) := False] ! k)"
      by auto
    have lenu: "nat (a + i) < length (MEMORY_USED s)"
      and lenp: "nat (a + i) < length (MEMORY_IS_POINTER s)"
      using inb less.prems by (simp_all add: MAX_MEMORY_def)
    have U: "MEMORY_USED s' ! k =
        (if a + i \<le> int k \<and> int k \<le> a + n then True else MEMORY_USED s ! k)" for k
    proof (cases "k = nat (a + i)")
      case True
      with u[of k] lenu less.prems(3) \<open>i < n + 1\<close> show ?thesis by simp
    next
      case False
      with less.prems(3) have ne: "int k \<noteq> a + i" by auto
      then have "a + (i + 1) \<le> int k \<longleftrightarrow> a + i \<le> int k" by arith
      with u[of k] False show ?thesis by simp 
    qed
    have P: "MEMORY_IS_POINTER s' ! k =
        (if a + i \<le> int k \<and> int k \<le> a + n then False else MEMORY_IS_POINTER s ! k)" for k
    proof (cases "k = nat (a + i)")
      case True
      with p[of k] lenp less.prems(3) \<open>i < n + 1\<close> show ?thesis by simp
    next
      case False
      with less.prems(3) have ne: "int k \<noteq> a + i" by auto
      then have "a + (i + 1) \<le> int k \<longleftrightarrow> a + i \<le> int k" by arith
      with p[of k] False show ?thesis by simp
    qed
    from step s' U P show ?thesis by simp
  qed
qed

section \<open>The search loop\<close>

lemma my_malloc_loop_exit:
  "\<not> offset < MAX_MEMORY s \<Longrightarrow>
   my_malloc_loop s ssa n offset = Some (Exits ''Out of memory!\<newline>'' s)"
  by (subst my_malloc_loop.simps) simp

lemma my_malloc_loop_Inl:
  "offset < MAX_MEMORY s \<Longrightarrow> my_malloc_body s ssa n offset = Inl res \<Longrightarrow>
   my_malloc_loop s ssa n offset = Some res"
  by (subst my_malloc_loop.simps) simp

lemma my_malloc_loop_Inr:
  "offset < MAX_MEMORY s \<Longrightarrow> my_malloc_body s ssa n offset = Inr offset' \<Longrightarrow>
   my_malloc_loop s ssa n offset = my_malloc_loop s ssa n offset'"
  by (subst my_malloc_loop.simps) simp

lemma my_malloc_body_increases:
  assumes "my_malloc_body s ssa n offset = Inr offset'"
  shows "offset < offset'"
proof -
  let ?a = "(ssa + offset) smod MAX_MEMORY s"
  from assms consider "offset' = offset + 1"
    | i where "find_free_space s ?a n 0 = Some (Blocked i)" "offset' = offset + (i + 1)"
    by (auto simp: my_malloc_body_def split: option.splits if_splits probe.splits)
  then show ?thesis
  proof cases
    case 1
    then show ?thesis by simp
  next
    case 2
    from find_free_space_Blocked[OF 2(1)] 2(2) show ?thesis by simp
  qed
qed

lemma my_malloc_loop_terminates:
  "\<exists>res. my_malloc_loop s ssa n offset = Some res"
proof (induction "nat (MAX_MEMORY s - offset)" arbitrary: offset rule: less_induct)
  case less
  show ?case
  proof (cases "offset < MAX_MEMORY s")
    case False
    then show ?thesis by (simp add: my_malloc_loop_exit)
  next
    case lt: True
    show ?thesis
    proof (cases "my_malloc_body s ssa n offset")
      case (Inl res)
      with lt show ?thesis by (simp add: my_malloc_loop_Inl)
    next
      case (Inr offset')
      then have "offset < offset'" by (rule my_malloc_body_increases)
      then have "\<exists>res. my_malloc_loop s ssa n offset' = Some res"
        using lt by (intro less.hyps) simp
      with lt Inr show ?thesis by (simp add: my_malloc_loop_Inr)
    qed
  qed
qed

lemma arena_ok_lengths:
  assumes "arena_ok s"
  shows "length (MEMORY_USED s) = length (MEMORY_BUFFER s)"
    and "length (MEMORY_IS_POINTER s) = length (MEMORY_BUFFER s)"
    and "0 < MAX_MEMORY s"
  using assms by (simp_all add: arena_ok_def MAX_MEMORY_def)

lemma my_malloc_body_cases:
  assumes ok: "arena_ok s" and ssa: "0 \<le> ssa" and off: "0 \<le> offset"
    and a: "a = (ssa + offset) mod MAX_MEMORY s"
  shows "(MEMORY_USED s ! nat a \<and> my_malloc_body s ssa n offset = Inr (offset + 1)) \<or>
    (\<not> MEMORY_USED s ! nat a \<and>
      (\<exists>i. find_free_space s a n 0 = Some (Blocked i) \<and>
           my_malloc_body s ssa n offset = Inr (offset + (i + 1)))) \<or>
    (\<not> MEMORY_USED s ! nat a \<and> find_free_space s a n 0 = Some Free_space \<and>
      (\<exists>s'. mark_used s a n 1 = Some s' \<and>
            my_malloc_body s ssa n offset = Inl (Returns (a + 1) s')))"
proof -
  note len = arena_ok_lengths[OF ok]
  have a_smod: "(ssa + offset) smod MAX_MEMORY s = a"
    using ssa off len(3) a by (simp add: smod_nonneg)
  have a0: "0 \<le> a" and a1: "a < MAX_MEMORY s"
    using len(3) by (simp_all add: a)
  have ld: "load (MEMORY_USED s) a = Some (MEMORY_USED s ! nat a)"
    using a0 a1 len(1) by (simp add: load_in_bounds MAX_MEMORY_def)
  have body: "my_malloc_body s ssa n offset =
      (if MEMORY_USED s ! nat a then Inr (offset + 1)
       else (case find_free_space s a n 0 of
               None \<Rightarrow> Inl Undefined
             | Some (Blocked i) \<Rightarrow> Inr (offset + (i + 1))
             | Some Free_space \<Rightarrow>
                (case mark_used s a n 1 of
                   None \<Rightarrow> Inl Undefined
                 | Some s' \<Rightarrow> Inl (Returns (a + 1) s'))))"
    unfolding my_malloc_body_def a_smod ld by simp
  show ?thesis
  proof (cases "MEMORY_USED s ! nat a")
    case True
    with body show ?thesis by simp
  next
    case False
    have "find_free_space s a n 0 \<noteq> None"
      using find_free_space_defined[OF len(1), of a 0 n] a0 by simp
    then obtain pr where pr: "find_free_space s a n 0 = Some pr" by auto
    show ?thesis
    proof (cases pr)
      case (Blocked i)
      with False body pr show ?thesis by simp
    next
      case Free_space
      with pr have free: "find_free_space s a n 0 = Some Free_space" by simp
      then have win: "\<And>j. 0 \<le> j \<and> j < n + 2 \<Longrightarrow> a + j < MAX_MEMORY s"
        using find_free_space_Free[OF len(1), of a 0 n] a0 by simp
      have "1 < n + 1 \<longrightarrow> a + n < MAX_MEMORY s"
        using win[of n] by simp
      then obtain s' where "mark_used s a n 1 = Some s'"
        using mark_used_result[OF len(1,2), of a 1 n] a0 by auto
      with False body free show ?thesis by simp
    qed
  qed
qed

lemma my_malloc_loop_cases:
  assumes ok: "arena_ok s" and ssa: "0 \<le> ssa" and off: "0 \<le> offset"
  shows "my_malloc_loop s ssa n offset = Some (Exits ''Out of memory!\<newline>'' s) \<or>
    (\<exists>offset' s'. offset \<le> offset' \<and> offset' < MAX_MEMORY s \<and>
       \<not> MEMORY_USED s ! nat ((ssa + offset') mod MAX_MEMORY s) \<and>
       find_free_space s ((ssa + offset') mod MAX_MEMORY s) n 0 = Some Free_space \<and>
       mark_used s ((ssa + offset') mod MAX_MEMORY s) n 1 = Some s' \<and>
       my_malloc_loop s ssa n offset = Some (Returns ((ssa + offset') mod MAX_MEMORY s + 1) s') \<and>
       (offset < offset' \<longrightarrow> (\<exists>o'. my_malloc_body s ssa n offset = Inr o')))"
  using off
proof (induction "nat (MAX_MEMORY s - offset)" arbitrary: offset rule: less_induct)
  case less
  show ?case
  proof (cases "offset < MAX_MEMORY s")
    case False
    then show ?thesis by (simp add: my_malloc_loop_exit)
  next
    case lt: True
    define a where "a = (ssa + offset) mod MAX_MEMORY s"
    note body = my_malloc_body_cases[OF ok ssa less.prems a_def, of n]
    show ?thesis
    proof (cases "my_malloc_body s ssa n offset")
      case (Inl res)
      with body obtain s' where "\<not> MEMORY_USED s ! nat a"
        "find_free_space s a n 0 = Some Free_space" "mark_used s a n 1 = Some s'"
        "res = Returns (a + 1) s'"
        by auto
      moreover from Inl lt have "my_malloc_loop s ssa n offset = Some res"
        by (simp add: my_malloc_loop_Inl)
      ultimately show ?thesis using lt unfolding a_def by blast
    next
      case (Inr offset')
      then have inc: "offset < offset'" by (rule my_malloc_body_increases)
      have eq: "my_malloc_loop s ssa n offset = my_malloc_loop s ssa n offset'"
        using lt Inr by (rule my_malloc_loop_Inr)
      have "my_malloc_loop s ssa n offset' = Some (Exits ''Out of memory!\<newline>'' s) \<or>
        (\<exists>offset'' s'. offset' \<le> offset'' \<and> offset'' < MAX_MEMORY s \<and>
           \<not> MEMORY_USED s ! nat ((ssa + offset'') mod MAX_MEMORY s) \<and>
           find_free_space s ((ssa + offset'') mod MAX_MEMORY s) n 0 = Some Free_space \<and>
           mark_used s ((ssa + offset'') mod MAX_MEMORY s) n 1 = Some s' \<and>
           my_malloc_loop s ssa n offset' =
             Some (Returns ((ssa + offset'') mod MAX_MEMORY s + 1) s') \<and>
           (offset' < offset'' \<longrightarrow> (\<exists>o'. my_malloc_body s ssa n offset' = Inr o')))"
        using inc lt less.prems by (intro less.hyps) simp_all
      then show ?thesis
      proof
        assume "my_malloc_loop s ssa n offset' = Some (Exits ''Out of memory!\<newline>'' s)"
        with eq show ?thesis by simp
      next
        assume "\<exists>offset'' s'. offset' \<le> offset'' \<and> offset'' < MAX_MEMORY s \<and>
           \<not> MEMORY_USED s ! nat ((ssa + offset'') mod MAX_MEMORY s) \<and>
           find_free_space s ((ssa + offset'') mod MAX_MEMORY s) n 0 = Some Free_space \<and>
           mark_used s ((ssa + offset'') mod MAX_MEMORY s) n 1 = Some s' \<and>
           my_malloc_loop s ssa n offset' =
             Some (Returns ((ssa + offset'') mod MAX_MEMORY s + 1) s') \<and>
           (offset' < offset'' \<longrightarrow> (\<exists>o'. my_malloc_body s ssa n offset' = Inr o'))"
        then obtain offset'' s' where *: "offset' \<le> offset''" "offset'' < MAX_MEMORY s"
           "\<not> MEMORY_USED s ! nat ((ssa + offset'') mod MAX_MEMORY s)"
           "find_free_space s ((ssa + offset'') mod MAX_MEMORY s) n 0 = Some Free_space"
           "mark_used s ((ssa + offset'') mod MAX_MEMORY s) n 1 = Some s'"
           "my_malloc_loop s ssa n offset' =
             Some (Returns ((ssa + offset'') mod MAX_MEMORY s + 1) s')"
          by blast
        from *(1) inc have "offset \<le> offset''" by simp
        with * eq Inr show ?thesis by auto
      qed
    qed
  qed
qed

lemma slots_ceiling:
  assumes "0 < bytes"
  shows "(bytes - 1) sdiv 8 + 1 = \<lceil>real_of_int bytes / 8\<rceil>"
proof -
  have "(bytes - 1) sdiv 8 = (bytes - 1) div 8"
    using assms by (simp add: signed_divide_int_def sgn_if)
  moreover have "\<lceil>real_of_int bytes / 8\<rceil> = - ((- bytes) div 8)"
    using ceiling_divide_eq_div[of bytes 8] by simp
  moreover have "- ((- bytes) div 8) = (bytes - 1) div 8 + 1"
    by presburger
  ultimately show ?thesis by simp
qed

lemma my_malloc_Returns:
  assumes ok: "arena_ok s" and ret: "my_malloc s r bytes = Some (Returns h s')"
    and n: "n = (bytes - 1) sdiv 8 + 1"
  shows "1 \<le> h" and "h \<le> MAX_MEMORY s" and "\<not> MEMORY_USED s ! nat (h - 1)"
    and "\<And>j. 0 \<le> j \<Longrightarrow> j < n + 2 \<Longrightarrow>
           h - 1 + j < MAX_MEMORY s \<and> \<not> MEMORY_USED s ! nat (h - 1 + j)"
    and "MEMORY_BUFFER s' = MEMORY_BUFFER s"
    and "length (MEMORY_USED s') = length (MEMORY_USED s)"
    and "length (MEMORY_IS_POINTER s') = length (MEMORY_IS_POINTER s)"
    and "\<And>k. MEMORY_USED s' ! k =
           (if h \<le> int k \<and> int k < h + n then True else MEMORY_USED s ! k)"
    and "\<And>k. MEMORY_IS_POINTER s' ! k =
           (if h \<le> int k \<and> int k < h + n then False else MEMORY_IS_POINTER s ! k)"
proof -
  note len = arena_ok_lengths[OF ok]
  define ssa where "ssa = int r smod MAX_MEMORY s"
  have ssa0: "0 \<le> ssa"
    unfolding ssa_def using len(3) by (simp add: smod_nonneg)
  from ret have loop: "my_malloc_loop s ssa n 0 = Some (Returns h s')"
    by (simp add: my_malloc_def ssa_def n)
  from my_malloc_loop_cases[OF ok ssa0, of 0 n] loop
  obtain offset' where off: "0 \<le> offset'" "offset' < MAX_MEMORY s"
    and nu: "\<not> MEMORY_USED s ! nat ((ssa + offset') mod MAX_MEMORY s)"
    and free: "find_free_space s ((ssa + offset') mod MAX_MEMORY s) n 0 = Some Free_space"
    and mark: "mark_used s ((ssa + offset') mod MAX_MEMORY s) n 1 = Some s'"
    and h: "h = (ssa + offset') mod MAX_MEMORY s + 1"
    by auto
  define a where "a = (ssa + offset') mod MAX_MEMORY s"
  have a0: "0 \<le> a" and a1: "a < MAX_MEMORY s"
    using len(3) by (simp_all add: a_def)
  have ha: "h - 1 = a" using h a_def by simp
  show "1 \<le> h" "h \<le> MAX_MEMORY s" using a0 a1 ha by simp_all
  show "\<not> MEMORY_USED s ! nat (h - 1)" using nu ha a_def by simp
  have win: "\<And>j. 0 \<le> j \<and> j < n + 2 \<Longrightarrow> a + j < MAX_MEMORY s \<and> \<not> MEMORY_USED s ! nat (a + j)"
    using find_free_space_Free[OF len(1), of a 0 n] a0 free a_def by simp
  then show "\<And>j. 0 \<le> j \<Longrightarrow> j < n + 2 \<Longrightarrow>
           h - 1 + j < MAX_MEMORY s \<and> \<not> MEMORY_USED s ! nat (h - 1 + j)"
    using ha by simp
  have "1 < n + 1 \<longrightarrow> a + n < MAX_MEMORY s"
    using win[of n] by simp
  from mark_used_result[OF len(1,2) _ this] a0 mark a_def
  have res: "MEMORY_BUFFER s' = MEMORY_BUFFER s"
    "length (MEMORY_USED s') = length (MEMORY_USED s)"
    "length (MEMORY_IS_POINTER s') = length (MEMORY_IS_POINTER s)"
    "\<And>k. MEMORY_USED s' ! k =
       (if a + 1 \<le> int k \<and> int k \<le> a + n then True else MEMORY_USED s ! k)"
    "\<And>k. MEMORY_IS_POINTER s' ! k =
       (if a + 1 \<le> int k \<and> int k \<le> a + n then False else MEMORY_IS_POINTER s ! k)"
    by auto
  show "MEMORY_BUFFER s' = MEMORY_BUFFER s"
    "length (MEMORY_USED s') = length (MEMORY_USED s)"
    "length (MEMORY_IS_POINTER s') = length (MEMORY_IS_POINTER s)"
    by (fact res)+
  have rng: "(a + 1 \<le> int k \<and> int k \<le> a + n) = (h \<le> int k \<and> int k < h + n)" for k
    using ha by auto
  show "\<And>k. MEMORY_USED s' ! k =
           (if h \<le> int k \<and> int k < h + n then True else MEMORY_USED s ! k)"
    using res(4) rng by simp
  show "\<And>k. MEMORY_IS_POINTER s' ! k =
           (if h \<le> int k \<and> int k < h + n then False else MEMORY_IS_POINTER s ! k)"
    using res(5) rng by simp
qed

lemma my_malloc_outcome:
  assumes ok: "arena_ok s"
  shows "my_malloc s r bytes = Some (Exits ''Out of memory!\<newline>'' s) \<or>
    (\<exists>h s'. my_malloc s r bytes = Some (Returns h s'))"
proof -
  note len = arena_ok_lengths[OF ok]
  have "0 \<le> int r smod MAX_MEMORY s"
    using len(3) by (simp add: smod_nonneg)
  from my_malloc_loop_cases[OF ok this, of 0 "(bytes - 1) sdiv 8 + 1"]
  show ?thesis unfolding my_malloc_def by auto
qed

section \<open>Initialisation\<close>

lemma init_loop_buffer:
  assumes "init_loop s garbage i = Returns u s'" and "0 \<le> i"
  shows "MAX_MEMORY s' = MAX_MEMORY s \<and>
    (\<forall>k. 0 \<le> k \<and> k < MAX_MEMORY s \<longrightarrow>
       MEMORY_BUFFER s' ! nat k = (if i \<le> k then garbage k else MEMORY_BUFFER s ! nat k))"
  using assms
proof (induction "nat (MAX_MEMORY s - i)" arbitrary: s i rule: less_induct)
  case less
  show ?case
  proof (cases "i < MAX_MEMORY s")
    case False
    with less.prems have "s' = s" by (subst (asm) init_loop.simps) simp
    with False show ?thesis by auto
  next
    case True
    from less.prems(1) True obtain used buffer where
      u: "store (MEMORY_USED s) i False = Some used" and
      b: "store (MEMORY_BUFFER s) i (garbage i) = Some buffer" and
      rec: "init_loop (s\<lparr>MEMORY_USED := used, MEMORY_BUFFER := buffer\<rparr>) garbage (i + 1) = Returns u s'"
      by (subst (asm) init_loop.simps) (auto split: option.splits)
    let ?t = "s\<lparr>MEMORY_USED := used, MEMORY_BUFFER := buffer\<rparr>"
    from b have buf: "buffer = (MEMORY_BUFFER s)[nat i := garbage i]"
      by (auto simp: store_def split: if_splits)
    then have M: "MAX_MEMORY ?t = MAX_MEMORY s" by (simp add: MAX_MEMORY_def)
    have IH: "MAX_MEMORY s' = MAX_MEMORY ?t \<and>
      (\<forall>k. 0 \<le> k \<and> k < MAX_MEMORY ?t \<longrightarrow>
         MEMORY_BUFFER s' ! nat k = (if i + 1 \<le> k then garbage k else MEMORY_BUFFER ?t ! nat k))"
      using True less.prems(2) M by (intro less.hyps[OF _ rec]) simp_all
    show ?thesis
    proof (intro conjI allI impI)
      show "MAX_MEMORY s' = MAX_MEMORY s" using IH M by simp
      fix k assume k: "0 \<le> k \<and> k < MAX_MEMORY s"
      show "MEMORY_BUFFER s' ! nat k = (if i \<le> k then garbage k else MEMORY_BUFFER s ! nat k)"
      proof (cases "k = i")
        case True
        from \<open>i < MAX_MEMORY s\<close> less.prems(2) have "nat i < length (MEMORY_BUFFER s)"
          by (simp add: MAX_MEMORY_def)
        with True IH k M buf show ?thesis by simp
      next
        case False
        with k less.prems(2) have "nat k \<noteq> nat i" by auto
        with IH k M buf False show ?thesis by auto
      qed
    qed
  qed
qed


lemma mod_position_unique:
  fixes M :: int
  assumes "(x + a) mod M = (x + b) mod M" and "a \<le> b" and "b - a < M"
  shows "a = b"
proof (rule ccontr)
  assume "a \<noteq> b"
  with assms(2) have pos: "0 < b - a" by simp
  from assms(1)[symmetric] have "M dvd (x + b) - (x + a)"
    unfolding mod_eq_dvd_iff .
  then have "M dvd b - a" by simp
  with pos have "M \<le> b - a" by (rule zdvd_imp_le[rotated])
  with assms(3) show False by simp
qed


section \<open>The loop of \<^verbatim>\<open>my_free\<close>\<close>

lemma my_free_loop_stop:
  "\<not> a < MAX_MEMORY s \<Longrightarrow> my_free_loop s a = Returns () s"
  by (subst my_free_loop.simps) simp

lemma my_free_loop_step:
  assumes "0 \<le> a" "a < MAX_MEMORY s" "length (MEMORY_USED s) = length (MEMORY_BUFFER s)"
  shows "my_free_loop s a =
    (if MEMORY_USED s ! nat a
     then my_free_loop (s\<lparr>MEMORY_USED := (MEMORY_USED s)[nat a := False]\<rparr>) (a + 1)
     else Returns () s)"
proof -
  have "load (MEMORY_USED s) a = Some (MEMORY_USED s ! nat a)"
    and "store (MEMORY_USED s) a False = Some ((MEMORY_USED s)[nat a := False])"
    using assms by (simp_all add: load_in_bounds store_in_bounds MAX_MEMORY_def)
  with assms(2) show ?thesis
    by (subst my_free_loop.simps) simp
qed

lemma clear_run_step:
  assumes "i < length U" and "U ! i"
  shows "take (Suc i) (U[i := False])
      @ replicate (length (takeWhile (\<lambda>u. u) (drop (Suc i) (U[i := False])))) False
      @ drop (Suc i + length (takeWhile (\<lambda>u. u) (drop (Suc i) (U[i := False])))) (U[i := False])
    = take i U @ replicate (length (takeWhile (\<lambda>u. u) (drop i U))) False
      @ drop (i + length (takeWhile (\<lambda>u. u) (drop i U))) U"
proof -
  have d: "drop i U = U ! i # drop (Suc i) U"
    using assms(1) by (simp add: Cons_nth_drop_Suc)
  have t: "take (Suc i) (U[i := False]) = take i U @ [False]"
    using assms(1) by (simp add: take_Suc_conv_app_nth)
  show ?thesis
    using assms(2) by (simp add: d t)
qed

lemma clear_run_none:
  assumes "length U \<le> i \<or> \<not> U ! i"
  shows "take i U @ replicate (length (takeWhile (\<lambda>u. u) (drop i U))) False
      @ drop (i + length (takeWhile (\<lambda>u. u) (drop i U))) U = U"
proof (cases "length U \<le> i")
  case True
  then show ?thesis by simp
next
  case False
  then have "drop i U = U ! i # drop (Suc i) U" by (simp add: Cons_nth_drop_Suc)
  with assms False have "takeWhile (\<lambda>u. u) (drop i U) = []" by simp
  then show ?thesis by simp
qed

lemma my_free_loop_result:
  assumes "length (MEMORY_USED s) = length (MEMORY_BUFFER s)" and "0 \<le> a"
  shows "my_free_loop s a = Returns ()
    (s\<lparr>MEMORY_USED := take (nat a) (MEMORY_USED s)
        @ replicate (length (takeWhile (\<lambda>u. u) (drop (nat a) (MEMORY_USED s)))) False
        @ drop (nat a + length (takeWhile (\<lambda>u. u) (drop (nat a) (MEMORY_USED s))))
            (MEMORY_USED s)\<rparr>)"
  using assms
proof (induction "nat (MAX_MEMORY s - a)" arbitrary: s a rule: less_induct)
  case less
  show ?case
  proof (cases "a < MAX_MEMORY s")
    case False
    with less.prems have "length (MEMORY_USED s) \<le> nat a" by (simp add: MAX_MEMORY_def)
    with False show ?thesis
      by (simp add: my_free_loop_stop clear_run_none)
  next
    case lt: True
    note step = my_free_loop_step[OF less.prems(2) lt less.prems(1)]
    show ?thesis
    proof (cases "MEMORY_USED s ! nat a")
      case False
      with step show ?thesis by (simp add: clear_run_none)
    next
      case True
      let ?t = "s\<lparr>MEMORY_USED := (MEMORY_USED s)[nat a := False]\<rparr>"
      have na: "nat (a + 1) = Suc (nat a)" using less.prems(2) by simp
      have inb: "nat a < length (MEMORY_USED s)"
        using lt less.prems by (simp add: MAX_MEMORY_def)
      have "my_free_loop ?t (a + 1) = Returns ()
        (?t\<lparr>MEMORY_USED := take (nat (a + 1)) (MEMORY_USED ?t)
          @ replicate (length (takeWhile (\<lambda>u. u) (drop (nat (a + 1)) (MEMORY_USED ?t)))) False
          @ drop (nat (a + 1) + length (takeWhile (\<lambda>u. u) (drop (nat (a + 1)) (MEMORY_USED ?t))))
              (MEMORY_USED ?t)\<rparr>)"
        using lt less.prems by (intro less.hyps) simp_all
      then have "my_free_loop ?t (a + 1) = Returns ()
        (s\<lparr>MEMORY_USED := take (nat a) (MEMORY_USED s)
          @ replicate (length (takeWhile (\<lambda>u. u) (drop (nat a) (MEMORY_USED s)))) False
          @ drop (nat a + length (takeWhile (\<lambda>u. u) (drop (nat a) (MEMORY_USED s))))
              (MEMORY_USED s)\<rparr>)"
        unfolding na using clear_run_step[OF inb True] by simp
      with step True show ?thesis by simp
    qed
  qed
qed

lemma clear_run_nth:
  assumes "i + m \<le> length U"
  shows "(take i U @ replicate m False @ drop (i + m) U) ! k =
    (if i \<le> k \<and> k < i + m then False else U ! k)"
proof -
  consider "k < i" | "i \<le> k" "k < i + m" | "i + m \<le> k" by linarith
  then show ?thesis
  proof cases
    case 1
    with assms show ?thesis by (simp add: nth_append)
  next
    case 2
    then have "k - i < m" by linarith
    with 2 assms show ?thesis by (simp add: nth_append)
  next
    case 3
    then have "\<not> k - i < m" "\<not> k < i" "i + m + (k - i - m) = k" by linarith+
    with 3 assms show ?thesis by (simp add: nth_append)
  qed
qed

lemma used_run_length:
  assumes "i + m < length U"
    and "\<And>k. i \<le> k \<Longrightarrow> k < i + m \<Longrightarrow> U ! k"
    and "\<not> U ! (i + m)"
  shows "length (takeWhile (\<lambda>u. u) (drop i U)) = m"
proof -
  have "takeWhile (\<lambda>u. u) (drop i U) = take m (drop i U)"
  proof (rule takeWhile_eq_take_P_nth)
    fix k assume "k < m" "k < length (drop i U)"
    then show "drop i U ! k" using assms(1) assms(2)[of "i + k"] by simp
  next
    assume "m < length (drop i U)"
    then show "\<not> drop i U ! m" using assms(1,3) by simp
  qed
  with assms(1) show ?thesis by simp
qed

lemma my_free_after_my_malloc:
  assumes ok: "arena_ok s" and pos: "0 < bytes"
    and ret: "my_malloc s r bytes = Some (Returns h s1)"
  shows "\<exists>s2. my_free s1 h = Returns () s2 \<and> MEMORY_USED s2 = MEMORY_USED s \<and>
    (\<forall>k. MEMORY_USED s2 ! k =
       (if h \<le> int k \<and> int k < h + \<lceil>real_of_int bytes / 8\<rceil> then False
        else MEMORY_USED s1 ! k)) \<and>
    MEMORY_IS_POINTER s2 = MEMORY_IS_POINTER s1 \<and> MEMORY_BUFFER s2 = MEMORY_BUFFER s1"
proof -
  define n where "n = (bytes - 1) sdiv 8 + 1"
  have nc: "\<lceil>real_of_int bytes / 8\<rceil> = n"
    unfolding n_def using pos by (rule slots_ceiling[symmetric])
  have n1: "1 \<le> n"
    using pos by (simp add: n_def signed_divide_int_def sgn_if)
  note len = arena_ok_lengths[OF ok]
  note R = my_malloc_Returns[OF ok ret n_def]
  define U1 where "U1 = MEMORY_USED s1"
  define i where "i = nat h"
  define m where "m = nat n"
  have ih: "int i = h" and mn: "int m = n" using R(1) n1 by (simp_all add: i_def m_def)
  have lenU1: "length U1 = length (MEMORY_USED s)" using R(6) by (simp add: U1_def)
  have win: "h - 1 + j < MAX_MEMORY s \<and> \<not> MEMORY_USED s ! nat (h - 1 + j)"
    if "0 \<le> j" "j < n + 2" for j
    using R(4)[OF that] .
  have bound: "i + m < length U1"
    using win[of "n + 1"] n1 ih mn lenU1 len(1) by (simp add: MAX_MEMORY_def)
  have run: "U1 ! k" if "i \<le> k" "k < i + m" for k
    using R(8)[of k] that ih mn by (simp add: U1_def)
  have "nat (h - 1 + (n + 1)) = i + m" using ih mn by simp
  then have stop: "\<not> U1 ! (i + m)"
    using R(8)[of "i + m"] win[of "n + 1"] n1 ih mn by (simp add: U1_def)
  have k: "length (takeWhile (\<lambda>u. u) (drop i U1)) = m"
    using bound run stop by (rule used_run_length)
  have lenu1: "length (MEMORY_USED s1) = length (MEMORY_BUFFER s1)"
    using R(5,6) len(1) by simp
  define U2 where "U2 = take i U1 @ replicate m False @ drop (i + m) U1"
  have free: "my_free s1 h = Returns () (s1\<lparr>MEMORY_USED := U2\<rparr>)"
    using my_free_loop_result[OF lenu1, of h] R(1) k
    by (simp add: my_free_def U2_def U1_def[symmetric] i_def[symmetric])
  have nth2: "U2 ! k = (if i \<le> k \<and> k < i + m then False else U1 ! k)" for k
    unfolding U2_def using bound by (intro clear_run_nth) simp
  have len2: "length U2 = length (MEMORY_USED s)"
    using bound lenU1 by (simp add: U2_def)
  have eq: "U2 = MEMORY_USED s"
  proof (rule nth_equalityI[OF len2])
    fix k assume "k < length U2"
    show "U2 ! k = MEMORY_USED s ! k"
    proof (cases "i \<le> k \<and> k < i + m")
      case True
      then have "0 \<le> int k - (h - 1)" "int k - (h - 1) < n + 2" using ih mn by simp_all
      from win[OF this] have "\<not> MEMORY_USED s ! k" by simp
      with True nth2[of k] show ?thesis by simp
    next
      case False
      then have "\<not> (h \<le> int k \<and> int k < h + n)" using ih mn by auto
      then have "U1 ! k = MEMORY_USED s ! k"
        unfolding U1_def by (simp only: R(8)[of k] if_False)
      moreover have "U2 ! k = U1 ! k"
        by (simp only: nth2[of k] False if_False)
      ultimately show ?thesis by simp
    qed
  qed
  have rng: "(h \<le> int k \<and> int k < h + n) = (i \<le> k \<and> k < i + m)" for k
    using ih mn by auto
  show ?thesis
    unfolding nc using free eq nth2 rng by (simp add: U1_def)
qed


section \<open>Tagging and printing\<close>



lemma print_memory_used_loop_state:
  assumes "length (MEMORY_USED s) = length (MEMORY_BUFFER s)"
    and "length (MEMORY_IS_POINTER s) = length (MEMORY_BUFFER s)" and "0 \<le> i"
  shows "\<exists>out'. print_memory_used_loop s i out = Returns out' s"
  using assms(3)
proof (induction "nat (MAX_MEMORY s - i)" arbitrary: i out rule: less_induct)
  case less
  show ?case
  proof (cases "i < MAX_MEMORY s")
    case False
    then show ?thesis by (subst print_memory_used_loop.simps) simp
  next
    case True
    have ld: "load (MEMORY_USED s) i = Some (MEMORY_USED s ! nat i)"
      "load (MEMORY_IS_POINTER s) i = Some (MEMORY_IS_POINTER s ! nat i)"
      using True less.prems assms(1,2) by (simp_all add: load_in_bounds MAX_MEMORY_def)
    have IH: "\<exists>out'. print_memory_used_loop s (i + 1) out1 = Returns out' s" for out1
      using True less.prems by (intro less.hyps) simp_all
    show ?thesis
      using True ld IH by (subst print_memory_used_loop.simps) simp
  qed
qed

lemma print_memory_value_loop_state:
  assumes "length (MEMORY_USED s) = length (MEMORY_BUFFER s)"
    and "length (MEMORY_IS_POINTER s) = length (MEMORY_BUFFER s)" and "0 \<le> i"
  shows "\<exists>out'. print_memory_value_loop fmt_g pointee s i out = Returns out' s"
  using assms(3)
proof (induction "nat (MAX_MEMORY s - i)" arbitrary: i out rule: less_induct)
  case less
  show ?case
  proof (cases "i < MAX_MEMORY s")
    case False
    then show ?thesis by (subst print_memory_value_loop.simps) simp
  next
    case True
    have ld: "load (MEMORY_USED s) i = Some (MEMORY_USED s ! nat i)"
      "load (MEMORY_IS_POINTER s) i = Some (MEMORY_IS_POINTER s ! nat i)"
      "load (MEMORY_BUFFER s) i = Some (MEMORY_BUFFER s ! nat i)"
      using True less.prems assms(1,2) by (simp_all add: load_in_bounds MAX_MEMORY_def)
    have IH: "\<exists>out'. print_memory_value_loop fmt_g pointee s (i + 1) out1 = Returns out' s" for out1
      using True less.prems by (intro less.hyps) simp_all
    show ?thesis
      using True ld IH by (subst print_memory_value_loop.simps) simp
  qed
qed


section \<open>Runs of calls\<close>













section \<open>The claims about \<^verbatim>\<open>my_malloc\<close>\<close>

text \<open>
  Claim C8. For every size and every arena, the scan of \<^verbatim>\<open>my_malloc\<close> comes to an end:
  a pass through the loop body that goes back to the loop test has made \<^verbatim>\<open>offset\<close>
  strictly larger, the loop stops once \<^verbatim>\<open>offset\<close> has reached \<^verbatim>\<open>MAX_MEMORY\<close>, and so
  the call always has a result; in an arena whose arrays have their declared lengths
  the result is a returned handle or the out-of-memory exit.
\<close>

theorem my_malloc_terminates:
  "(my_malloc_body s ssa n offset = Inr offset' \<longrightarrow> offset < offset') \<and>
   (\<exists>res. my_malloc s r bytes = Some res) \<and>
   (arena_ok s \<longrightarrow>
      my_malloc s r bytes = Some (Exits ''Out of memory!\<newline>'' s) \<or>
      (\<exists>h s'. my_malloc s r bytes = Some (Returns h s')))"
  using my_malloc_body_increases[of s ssa n offset offset']
    my_malloc_loop_terminates[of s "int r smod MAX_MEMORY s" "(bytes - 1) sdiv 8 + 1" 0]
    my_malloc_outcome[of s r bytes]
  by (simp add: my_malloc_def)

theorem my_malloc_terminates_witness:
  "my_malloc_body (program_start 10) 8 1 0 = Inr 3 \<and> (0::int) < 3 \<and>
   arena_ok (program_start 10) \<and>
   my_malloc (program_start 10) 2 24 =
     Some (Returns 3 ((program_start 10)\<lparr>MEMORY_USED :=
       [False, False, False, True, True, True, False, False, False, False]\<rparr>))"
proof -
  have b: "my_malloc_body (program_start 10) 8 1 0 = Inr 3"
    by code_simp
  have ok: "arena_ok (program_start 10)"
    by (simp add: arena_ok_def program_start_def)
  have m: "my_malloc (program_start 10) 2 24 =
     Some (Returns 3 ((program_start 10)\<lparr>MEMORY_USED :=
       [False, False, False, True, True, True, False, False, False, False]\<rparr>))"
    by code_simp
  from b ok m my_malloc_terminates[of "program_start 10" 8 1 0 3 2 24] show ?thesis by simp
qed

text \<open>
  Claim C5. For every size and every arena, \<^verbatim>\<open>my_malloc\<close> writes inside the arrays only:
  no access of the call falls outside the bounds (the result is never \<open>Undefined\<close>),
  the arrays keep their lengths, and every slot whose used flag has changed has an
  index below \<^verbatim>\<open>MAX_MEMORY\<close> (indices are natural numbers, so none is negative).
\<close>

theorem my_malloc_writes_in_bounds:
  assumes "arena_ok s"
  shows "my_malloc s r bytes \<noteq> Some Undefined \<and>
    (\<forall>h s'. my_malloc s r bytes = Some (Returns h s') \<longrightarrow>
       arena_ok s' \<and> MAX_MEMORY s' = MAX_MEMORY s \<and>
       (\<forall>k. MEMORY_USED s' ! k \<noteq> MEMORY_USED s ! k \<longrightarrow> int k < MAX_MEMORY s))"
proof (intro conjI allI impI)
  from my_malloc_outcome[OF assms, of r bytes]
  show "my_malloc s r bytes \<noteq> Some Undefined" by auto
next
  fix h s' assume ret: "my_malloc s r bytes = Some (Returns h s')"
  note R = my_malloc_Returns[OF assms ret refl]
  from assms R(5,6,7) show "arena_ok s'" by (simp add: arena_ok_def)
  from R(5) show "MAX_MEMORY s' = MAX_MEMORY s" by (simp add: MAX_MEMORY_def)
  fix k assume "MEMORY_USED s' ! k \<noteq> MEMORY_USED s ! k"
  with R(8)[of k] have k: "h \<le> int k" "int k < h + ((bytes - 1) sdiv 8 + 1)"
    by (auto split: if_splits)
  then have "0 \<le> (bytes - 1) sdiv 8 + 1" "(bytes - 1) sdiv 8 + 1 < (bytes - 1) sdiv 8 + 1 + 2"
    using R(1) by simp_all
  from R(4)[OF this] k show "int k < MAX_MEMORY s" by simp
qed

theorem my_malloc_writes_in_bounds_witness:
  "arena_ok (program_start 10) \<and>
   my_malloc (program_start 10) 2 24 \<noteq> Some Undefined"
proof -
  have ok: "arena_ok (program_start 10)"
    by (simp add: arena_ok_def program_start_def)
  from ok my_malloc_writes_in_bounds[OF ok, of 2 24] show ?thesis by simp
qed

text \<open>
  Claim C3. When \<^verbatim>\<open>my_malloc\<close> ends in the out-of-memory exit, it has printed
  \<^verbatim>\<open>Out of memory!\<close> and the three arrays are as they were when it was called.
\<close>

theorem my_malloc_exhaustion_keeps_state:
  assumes "arena_ok s" and "my_malloc s r bytes = Some (Exits out s')"
  shows "s' = s \<and> out = ''Out of memory!\<newline>''"
  using my_malloc_outcome[OF assms(1), of r bytes] assms(2) by auto


theorem my_malloc_exhaustion_keeps_state_witness:
  "arena_ok (program_start 3) \<and>
   my_malloc (program_start 3) 0 16 = Some (Exits ''Out of memory!\<newline>'' (program_start 3))"
proof -
  have ok: "arena_ok (program_start 3)"
    by (simp add: arena_ok_def program_start_def)
  have ex: "my_malloc (program_start 3) 0 16 =
      Some (Exits ''Out of memory!\<newline>'' (program_start 3))"
    by code_simp
  from ok ex my_malloc_exhaustion_keeps_state[OF ok ex] show ?thesis by simp
qed

text \<open>
  Claim C1. For a request of \<open>bytes > 0\<close> bytes that \<^verbatim>\<open>my_malloc\<close> answers with a
  handle, the number of slots it computes is \<open>\<lceil>bytes / 8\<rceil>\<close>, and the handle is
  \<open>start + 1\<close> for a position \<open>start\<close> such that the slots from \<open>start + 1\<close> to
  \<open>start + \<lceil>bytes / 8\<rceil>\<close> lie in the arena, were free before the call and are used
  with the pointer tag cleared after it, while slot \<open>start\<close> was free and is left as
  it was (flag, tag and value).
\<close>

theorem my_malloc_allocates:
  assumes "arena_ok s" and "0 < bytes" and "my_malloc s r bytes = Some (Returns h s')"
  shows "(bytes - 1) sdiv 8 + 1 = \<lceil>real_of_int bytes / 8\<rceil> \<and>
    (\<exists>start. h = start + 1 \<and> 0 \<le> start \<and> start + \<lceil>real_of_int bytes / 8\<rceil> < MAX_MEMORY s \<and>
       (\<forall>i. start + 1 \<le> i \<and> i \<le> start + \<lceil>real_of_int bytes / 8\<rceil> \<longrightarrow>
          \<not> MEMORY_USED s ! nat i \<and> MEMORY_USED s' ! nat i \<and> \<not> MEMORY_IS_POINTER s' ! nat i) \<and>
       \<not> MEMORY_USED s ! nat start \<and> \<not> MEMORY_USED s' ! nat start \<and>
       MEMORY_IS_POINTER s' ! nat start = MEMORY_IS_POINTER s ! nat start \<and>
       MEMORY_BUFFER s' ! nat start = MEMORY_BUFFER s ! nat start)"
proof -
  define n where "n = (bytes - 1) sdiv 8 + 1"
  have nc: "n = \<lceil>real_of_int bytes / 8\<rceil>"
    unfolding n_def using assms(2) by (rule slots_ceiling)
  have n1: "1 \<le> n"
    using assms(2) by (simp add: n_def signed_divide_int_def sgn_if)
  note R = my_malloc_Returns[OF assms(1,3) n_def]
  have win: "h - 1 + j < MAX_MEMORY s \<and> \<not> MEMORY_USED s ! nat (h - 1 + j)"
    if "0 \<le> j" "j < n + 2" for j
    using R(4)[OF that] .
  have slots: "\<not> MEMORY_USED s ! nat i \<and> MEMORY_USED s' ! nat i \<and> \<not> MEMORY_IS_POINTER s' ! nat i"
    if "h - 1 + 1 \<le> i \<and> i \<le> h - 1 + n" for i
  proof -
    from that R(1) have i: "0 \<le> i" "h \<le> int (nat i)" "int (nat i) < h + n" by simp_all
    from win[of "i - (h - 1)"] that have "\<not> MEMORY_USED s ! nat i" by simp
    with R(8)[of "nat i"] R(9)[of "nat i"] i show ?thesis by simp
  qed
  have guard: "\<not> (h \<le> int (nat (h - 1)) \<and> int (nat (h - 1)) < h + n)"
    using R(1) by simp
  have "h = (h - 1) + 1 \<and> 0 \<le> h - 1 \<and> h - 1 + n < MAX_MEMORY s \<and>
       (\<forall>i. h - 1 + 1 \<le> i \<and> i \<le> h - 1 + n \<longrightarrow>
          \<not> MEMORY_USED s ! nat i \<and> MEMORY_USED s' ! nat i \<and> \<not> MEMORY_IS_POINTER s' ! nat i) \<and>
       \<not> MEMORY_USED s ! nat (h - 1) \<and> \<not> MEMORY_USED s' ! nat (h - 1) \<and>
       MEMORY_IS_POINTER s' ! nat (h - 1) = MEMORY_IS_POINTER s ! nat (h - 1) \<and>
       MEMORY_BUFFER s' ! nat (h - 1) = MEMORY_BUFFER s ! nat (h - 1)"
    using R(1) R(3) R(5) win[of n] n1 slots R(8)[of "nat (h - 1)"] R(9)[of "nat (h - 1)"] guard
    by simp
  then show ?thesis unfolding nc[symmetric] n_def[symmetric] using nc by blast
qed


theorem my_malloc_allocates_witness:
  "arena_ok (program_start 10) \<and> (0::int) < 24 \<and>
   my_malloc (program_start 10) 2 24 = Some (Returns 3 ((program_start 10)\<lparr>MEMORY_USED :=
       [False, False, False, True, True, True, False, False, False, False]\<rparr>)) \<and>
   (24 - 1) sdiv 8 + 1 = \<lceil>real_of_int 24 / 8\<rceil>"
proof -
  have ok: "arena_ok (program_start 10)"
    by (simp add: arena_ok_def program_start_def)
  have pos: "(0::int) < 24" by simp
  have m: "my_malloc (program_start 10) 2 24 = Some (Returns 3 ((program_start 10)\<lparr>MEMORY_USED :=
       [False, False, False, True, True, True, False, False, False, False]\<rparr>))"
    by code_simp
  from my_malloc_allocates[OF ok pos m] ok m show ?thesis by simp
qed

text \<open>
  Claim C10. A call of \<^verbatim>\<open>my_malloc\<close> that returns a handle leaves \<^verbatim>\<open>MEMORY_BUFFER\<close>
  as it was and changes the used flag and the pointer tag of no slot outside the
  slots it allocates; so when the arena is the one \<^verbatim>\<open>init_my_malloc\<close> has just left,
  every slot still holds the value that \<^verbatim>\<open>double_rand\<close> gave it.
\<close>

theorem my_malloc_keeps_values:
  assumes "arena_ok s" and "my_malloc s r bytes = Some (Returns h s')"
  shows "MEMORY_BUFFER s' = MEMORY_BUFFER s \<and>
    (\<forall>k. \<not> (h \<le> int k \<and> int k < h + ((bytes - 1) sdiv 8 + 1)) \<longrightarrow>
       MEMORY_USED s' ! k = MEMORY_USED s ! k \<and>
       MEMORY_IS_POINTER s' ! k = MEMORY_IS_POINTER s ! k) \<and>
    (\<forall>s0 garbage. init_my_malloc s0 garbage = Returns () s \<longrightarrow>
       (\<forall>i. 0 \<le> i \<and> i < MAX_MEMORY s \<longrightarrow> MEMORY_BUFFER s' ! nat i = garbage i))"
proof -
  note R = my_malloc_Returns[OF assms refl]
  have "MEMORY_BUFFER s' ! nat i = garbage i"
    if "init_my_malloc s0 garbage = Returns () s" "0 \<le> i \<and> i < MAX_MEMORY s" for s0 garbage i
  proof -
    from that(1) have "init_loop s0 garbage 0 = Returns () s" by (simp add: init_my_malloc_def)
    from init_loop_buffer[OF this] that(2) R(5) show ?thesis by simp
  qed
  with R(5) R(8) R(9) show ?thesis by simp
qed

theorem my_malloc_keeps_values_witness:
  "arena_ok (program_start 10) \<and>
   my_malloc (program_start 10) 2 24 = Some (Returns 3 ((program_start 10)\<lparr>MEMORY_USED :=
       [False, False, False, True, True, True, False, False, False, False]\<rparr>)) \<and>
   MEMORY_BUFFER ((program_start 10)\<lparr>MEMORY_USED :=
       [False, False, False, True, True, True, False, False, False, False]\<rparr>) = MEMORY_BUFFER (program_start 10)"
proof -
  have ok: "arena_ok (program_start 10)"
    by (simp add: arena_ok_def program_start_def)
  have m: "my_malloc (program_start 10) 2 24 = Some (Returns 3 ((program_start 10)\<lparr>MEMORY_USED :=
       [False, False, False, True, True, True, False, False, False, False]\<rparr>))"
    by code_simp
  from my_malloc_keeps_values[OF ok m] ok m show ?thesis by simp
qed

text \<open>
  Claim C4, as the code has it. The position \<open>start\<close> that the search loop tests at
  \<open>offset\<close> is accepted (the call returns the handle \<open>start + 1\<close>) exactly when slot
  \<open>start\<close> is free and all of the \<open>n + 2\<close> slots \<open>start\<close> to \<open>start + n + 1\<close> (the
  leading guard, the \<open>n\<close> slots and the trailing slot) lie inside the arena and are
  free. The trailing slot has to be inside the arena.
\<close>

theorem placement_accepts_iff_window_free:
  assumes ok: "arena_ok s" and ssa: "0 \<le> ssa" and off: "0 \<le> offset" "offset < MAX_MEMORY s"
    and start: "start = (ssa + offset) smod MAX_MEMORY s"
  shows "(\<exists>s'. my_malloc_loop s ssa n offset = Some (Returns (start + 1) s')) \<longleftrightarrow>
    (\<not> MEMORY_USED s ! nat start \<and>
     (\<forall>j. 0 \<le> j \<and> j < n + 2 \<longrightarrow>
        start + j < MAX_MEMORY s \<and> \<not> MEMORY_USED s ! nat (start + j)))"
proof -
  note len = arena_ok_lengths[OF ok]
  have st: "start = (ssa + offset) mod MAX_MEMORY s"
    using start ssa off(1) len(3) by (simp add: smod_nonneg)
  have st0: "0 \<le> start" using st len(3) by simp
  have Free: "find_free_space s start n 0 = Some Free_space \<longleftrightarrow>
    (\<forall>j. 0 \<le> j \<and> j < n + 2 \<longrightarrow> start + j < MAX_MEMORY s \<and> \<not> MEMORY_USED s ! nat (start + j))"
    using find_free_space_Free[OF len(1), of start 0 n] st0 by simp
  show ?thesis
  proof
    assume "\<exists>s'. my_malloc_loop s ssa n offset = Some (Returns (start + 1) s')"
    then obtain s' where ret: "my_malloc_loop s ssa n offset = Some (Returns (start + 1) s')" ..
    from my_malloc_loop_cases[OF ok ssa off(1), of n] ret
    obtain offset' where o: "offset \<le> offset'" "offset' < MAX_MEMORY s"
      and nu: "\<not> MEMORY_USED s ! nat ((ssa + offset') mod MAX_MEMORY s)"
      and free: "find_free_space s ((ssa + offset') mod MAX_MEMORY s) n 0 = Some Free_space"
      and eq: "start + 1 = (ssa + offset') mod MAX_MEMORY s + 1"
      by auto
    from eq st have same: "(ssa + offset) mod MAX_MEMORY s = (ssa + offset') mod MAX_MEMORY s"
      by simp
    from o off have "offset' - offset < MAX_MEMORY s" by simp
    with same o(1) have "offset = offset'" by (rule mod_position_unique)
    with nu free st Free show "\<not> MEMORY_USED s ! nat start \<and>
     (\<forall>j. 0 \<le> j \<and> j < n + 2 \<longrightarrow>
        start + j < MAX_MEMORY s \<and> \<not> MEMORY_USED s ! nat (start + j))"
      by simp
  next
    assume acc: "\<not> MEMORY_USED s ! nat start \<and>
     (\<forall>j. 0 \<le> j \<and> j < n + 2 \<longrightarrow>
        start + j < MAX_MEMORY s \<and> \<not> MEMORY_USED s ! nat (start + j))"
    with Free have free: "find_free_space s start n 0 = Some Free_space" by simp
    from my_malloc_body_cases[OF ok ssa off(1) st, of n] acc free
    obtain s' where "my_malloc_body s ssa n offset = Inl (Returns (start + 1) s')"
      by auto
    with off(2) have "my_malloc_loop s ssa n offset = Some (Returns (start + 1) s')"
      by (rule my_malloc_loop_Inl)
    then show "\<exists>s'. my_malloc_loop s ssa n offset = Some (Returns (start + 1) s')" ..
  qed
qed

theorem placement_accepts_iff_window_free_witness:
  "arena_ok (program_start 10) \<and> (0::int) \<le> 2 \<and> (0::int) \<le> 0 \<and>
   0 < MAX_MEMORY (program_start 10) \<and> (2::int) = (2 + 0) smod MAX_MEMORY (program_start 10) \<and>
   (\<exists>s'. my_malloc_loop (program_start 10) 2 3 0 = Some (Returns (2 + 1) s'))"
proof -
  have ok: "arena_ok (program_start 10)"
    by (simp add: arena_ok_def program_start_def)
  have M: "0 < MAX_MEMORY (program_start 10)"
    by (simp add: MAX_MEMORY_def program_start_def)
  have st: "(2::int) = (2 + 0) smod MAX_MEMORY (program_start 10)"
    by (simp add: MAX_MEMORY_def program_start_def signed_modulo_int_def)
  have m: "my_malloc_loop (program_start 10) 2 3 0 = Some (Returns (2 + 1)
    ((program_start 10)\<lparr>MEMORY_USED :=
       [False, False, False, True, True, True, False, False, False, False]\<rparr>))"
    by code_simp
  then have "\<exists>s'. my_malloc_loop (program_start 10) 2 3 0 = Some (Returns (2 + 1) s')" ..
  with placement_accepts_iff_window_free[OF ok _ _ M st, of 3] ok M st show ?thesis by simp
qed

text \<open>
  Claim C4 as stated fails: in an arena of three free slots, position 0 with \<open>n = 2\<close>
  has slot 0 free, slots 1 and 2 in bounds and free and the trailing slot 3 out of
  bounds; the test of lines 118 to 127 breaks at \<open>i = 3\<close>, and the call for 16 bytes
  ends in the out-of-memory exit.
\<close>

theorem placement_rejects_run_at_arena_end:
  "\<not> MEMORY_USED (program_start 3) ! 0 \<and>
   \<not> MEMORY_USED (program_start 3) ! 1 \<and> \<not> MEMORY_USED (program_start 3) ! 2 \<and>
   (0::int) + 2 < MAX_MEMORY (program_start 3) \<and>
   MAX_MEMORY (program_start 3) \<le> 0 + 2 + 1 \<and>
   find_free_space (program_start 3) 0 2 0 = Some (Blocked 3) \<and>
   my_malloc_loop (program_start 3) 0 2 0 =
     Some (Exits ''Out of memory!\<newline>'' (program_start 3)) \<and>
   my_malloc (program_start 3) 0 16 =
     Some (Exits ''Out of memory!\<newline>'' (program_start 3))"
  by code_simp


section \<open>The claims about \<^verbatim>\<open>my_free\<close>\<close>

text \<open>
  Claim C2. In every arena, when \<^verbatim>\<open>my_malloc\<close> has just returned a handle for
  \<open>bytes > 0\<close>, \<^verbatim>\<open>my_free\<close> of that handle sets the used flags of the slots from
  \<open>h\<close> to \<open>h + \<lceil>bytes / 8\<rceil> - 1\<close> back to free and changes no other used flag (the
  flags are those from before the allocation), no pointer tag and no value. In
  general \<^verbatim>\<open>my_free\<close> of a slot index \<open>ptr \<ge> 0\<close> clears the used flag of the longest
  run of used slots that starts at \<open>ptr\<close>, which ends at the first free slot or at
  the end of the arena, and changes nothing else.
\<close>

theorem my_free_releases:
  assumes "arena_ok s"
  shows "(\<forall>r bytes h s1. 0 < bytes \<and> my_malloc s r bytes = Some (Returns h s1) \<longrightarrow>
      (\<exists>s2. my_free s1 h = Returns () s2 \<and> MEMORY_USED s2 = MEMORY_USED s \<and>
         (\<forall>k. MEMORY_USED s2 ! k =
            (if h \<le> int k \<and> int k < h + \<lceil>real_of_int bytes / 8\<rceil> then False
             else MEMORY_USED s1 ! k)) \<and>
         MEMORY_IS_POINTER s2 = MEMORY_IS_POINTER s1 \<and> MEMORY_BUFFER s2 = MEMORY_BUFFER s1)) \<and>
    (\<forall>ptr. 0 \<le> ptr \<longrightarrow>
      my_free s ptr = Returns ()
        (s\<lparr>MEMORY_USED := take (nat ptr) (MEMORY_USED s)
           @ replicate (length (takeWhile (\<lambda>used. used) (drop (nat ptr) (MEMORY_USED s)))) False
           @ drop (nat ptr + length (takeWhile (\<lambda>used. used) (drop (nat ptr) (MEMORY_USED s))))
               (MEMORY_USED s)\<rparr>))"
proof (intro conjI allI impI)
  fix r bytes h s1
  assume "0 < bytes \<and> my_malloc s r bytes = Some (Returns h s1)"
  then show "\<exists>s2. my_free s1 h = Returns () s2 \<and> MEMORY_USED s2 = MEMORY_USED s \<and>
         (\<forall>k. MEMORY_USED s2 ! k =
            (if h \<le> int k \<and> int k < h + \<lceil>real_of_int bytes / 8\<rceil> then False
             else MEMORY_USED s1 ! k)) \<and>
         MEMORY_IS_POINTER s2 = MEMORY_IS_POINTER s1 \<and> MEMORY_BUFFER s2 = MEMORY_BUFFER s1"
    using my_free_after_my_malloc[OF assms] by blast
next
  fix ptr :: int assume "0 \<le> ptr"
  then show "my_free s ptr = Returns ()
        (s\<lparr>MEMORY_USED := take (nat ptr) (MEMORY_USED s)
           @ replicate (length (takeWhile (\<lambda>used. used) (drop (nat ptr) (MEMORY_USED s)))) False
           @ drop (nat ptr + length (takeWhile (\<lambda>used. used) (drop (nat ptr) (MEMORY_USED s))))
               (MEMORY_USED s)\<rparr>)"
    using my_free_loop_result[OF arena_ok_lengths(1)[OF assms], of ptr]
    by (simp add: my_free_def)
qed


theorem my_free_releases_witness:
  "arena_ok (program_start 10) \<and> (0::int) < 24 \<and>
   my_malloc (program_start 10) 2 24 = Some (Returns 3 ((program_start 10)\<lparr>MEMORY_USED :=
       [False, False, False, True, True, True, False, False, False, False]\<rparr>)) \<and>
   (\<exists>s2. my_free ((program_start 10)\<lparr>MEMORY_USED :=
       [False, False, False, True, True, True, False, False, False, False]\<rparr>) 3 = Returns () s2 \<and>
      MEMORY_USED s2 = MEMORY_USED (program_start 10))"
proof -
  have ok: "arena_ok (program_start 10)"
    by (simp add: arena_ok_def program_start_def)
  have pos: "(0::int) < 24" by simp
  have m: "my_malloc (program_start 10) 2 24 = Some (Returns 3 ((program_start 10)\<lparr>MEMORY_USED :=
       [False, False, False, True, True, True, False, False, False, False]\<rparr>))"
    by code_simp
  from my_free_releases[OF ok, THEN conjunct1, rule_format, OF conjI[OF pos m]] ok pos m
  show ?thesis by blast
qed

text \<open>
  Claim C9. For a slot index \<open>ptr \<ge> 0\<close> whose slot is free (or that lies past the
  arena), \<^verbatim>\<open>my_free\<close> returns with the arena unchanged; and after any call of
  \<^verbatim>\<open>my_free\<close> a second call with the same index changes nothing.
\<close>

theorem my_free_idempotent:
  assumes ok: "arena_ok s" and ptr: "0 \<le> ptr"
  shows "((ptr < MAX_MEMORY s \<longrightarrow> \<not> MEMORY_USED s ! nat ptr) \<longrightarrow> my_free s ptr = Returns () s) \<and>
    (\<exists>s1. my_free s ptr = Returns () s1 \<and> my_free s1 ptr = Returns () s1)"
proof -
  have noop: "my_free t ptr = Returns () t"
    if "length (MEMORY_USED t) = length (MEMORY_BUFFER t)"
      and "ptr < MAX_MEMORY t \<longrightarrow> \<not> MEMORY_USED t ! nat ptr" for t :: "'a arena"
  proof -
    from that ptr have "length (MEMORY_USED t) \<le> nat ptr \<or> \<not> MEMORY_USED t ! nat ptr"
      by (auto simp: MAX_MEMORY_def)
    from clear_run_none[OF this] my_free_loop_result[OF that(1) ptr]
    show ?thesis by (simp add: my_free_def)
  qed
  note len = arena_ok_lengths[OF ok]
  define U where "U = MEMORY_USED s"
  define i where "i = nat ptr"
  define m where "m = length (takeWhile (\<lambda>u. u) (drop i U))"
  define U1 where "U1 = take i U @ replicate m False @ drop (i + m) U"
  have first: "my_free s ptr = Returns () (s\<lparr>MEMORY_USED := U1\<rparr>)"
    using my_free_loop_result[OF len(1) ptr]
    by (simp add: my_free_def U1_def m_def i_def U_def)
  have "m \<le> length (drop i U)" unfolding m_def by (rule length_takeWhile_le)
  then have im: "i < length U \<Longrightarrow> i + m \<le> length U" by simp
  have lenU1: "length U1 = length U"
  proof (cases "i < length U")
    case True
    with im show ?thesis by (simp add: U1_def)
  next
    case False
    then show ?thesis by (simp add: U1_def m_def)
  qed
  have "\<not> U1 ! i" if "i < length U"
  proof (cases "m = 0")
    case True
    then have "takeWhile (\<lambda>u. u) (drop i U) = []" by (simp add: m_def)
    moreover from that have "drop i U = U ! i # drop (Suc i) U"
      by (simp add: Cons_nth_drop_Suc)
    ultimately have "\<not> U ! i" by (simp split: if_splits)
    with True that show ?thesis by (simp add: U1_def)
  next
    case False
    with clear_run_nth[OF im[OF that], of i] show ?thesis by (simp add: U1_def)
  qed
  then have "my_free (s\<lparr>MEMORY_USED := U1\<rparr>) ptr = Returns () (s\<lparr>MEMORY_USED := U1\<rparr>)"
    using lenU1 len(1) ptr by (intro noop) (simp_all add: MAX_MEMORY_def U_def i_def)
  with first noop[OF len(1)] show ?thesis by blast
qed

theorem my_free_idempotent_witness:
  "arena_ok ((program_start 10)\<lparr>MEMORY_USED :=
       [False, False, False, True, True, True, False, False, False, False]\<rparr>) \<and> (0::int) \<le> 3 \<and>
   (\<exists>s1. my_free ((program_start 10)\<lparr>MEMORY_USED :=
       [False, False, False, True, True, True, False, False, False, False]\<rparr>) 3 = Returns () s1 \<and> my_free s1 3 = Returns () s1)"
proof -
  have ok: "arena_ok ((program_start 10)\<lparr>MEMORY_USED :=
       [False, False, False, True, True, True, False, False, False, False]\<rparr>)"
    by (simp add: arena_ok_def program_start_def)
  have le: "(0::int) \<le> 3" by simp
  from my_free_idempotent[OF ok le, THEN conjunct2] ok le show ?thesis by blast
qed

section \<open>The claims about the pointer tags and the printing routines\<close>




text \<open>
  Claim C7. In an arena whose arrays have their declared lengths, each of the two
  printing routines returns with the three arrays as they were, and a second call
  right after the first prints the same text.
\<close>

theorem printing_keeps_state:
  assumes "arena_ok s"
  shows "(\<exists>out. print_memory_used s = Returns out s) \<and>
    (\<forall>out s1. print_memory_used s = Returns out s1 \<longrightarrow>
       s1 = s \<and> print_memory_used s1 = Returns out s1) \<and>
    (\<exists>out. print_memory_value fmt_g pointee s = Returns out s) \<and>
    (\<forall>out s1. print_memory_value fmt_g pointee s = Returns out s1 \<longrightarrow>
       s1 = s \<and> print_memory_value fmt_g pointee s1 = Returns out s1)"
proof -
  note len = arena_ok_lengths[OF assms]
  have "\<exists>out'. print_memory_used_loop s 0 ''Current memory usage:'' = Returns out' s"
    by (rule print_memory_used_loop_state[OF len(1,2)]) simp
  then obtain out where u: "print_memory_used s = Returns out s"
    unfolding print_memory_used_def by auto
  have "\<exists>out'. print_memory_value_loop fmt_g pointee s 0 ''Current memory values:'' =
      Returns out' s"
    by (rule print_memory_value_loop_state[OF len(1,2)]) simp
  then obtain out' where v: "print_memory_value fmt_g pointee s = Returns out' s"
    unfolding print_memory_value_def by auto
  from u v show ?thesis by simp
qed

theorem printing_keeps_state_witness:
  "arena_ok ((program_start 10)\<lparr>MEMORY_USED :=
       [False, False, False, True, True, True, False, False, False, False]\<rparr>) \<and>
   print_memory_used ((program_start 10)\<lparr>MEMORY_USED :=
       [False, False, False, True, True, True, False, False, False, False]\<rparr>) =
     Returns ''Current memory usage:\<newline>     0: ...xxx....\<newline>''
       ((program_start 10)\<lparr>MEMORY_USED :=
       [False, False, False, True, True, True, False, False, False, False]\<rparr>)"
proof -
  have ok: "arena_ok ((program_start 10)\<lparr>MEMORY_USED :=
       [False, False, False, True, True, True, False, False, False, False]\<rparr>)"
    by (simp add: arena_ok_def program_start_def)
  have p: "print_memory_used ((program_start 10)\<lparr>MEMORY_USED :=
       [False, False, False, True, True, True, False, False, False, False]\<rparr>) =
     Returns ''Current memory usage:\<newline>     0: ...xxx....\<newline>''
       ((program_start 10)\<lparr>MEMORY_USED :=
       [False, False, False, True, True, True, False, False, False, False]\<rparr>)"
    by code_simp
  from printing_keeps_state[OF ok] ok p show ?thesis by simp
qed

end
